theory Spec2Isabelle
  imports Complex_Main "HOL-Library.Multiset"
begin

section \<open>Data model of the live variant caller\<close>

text \<open>
  The embedding follows \<^verbatim>\<open>variant_caller/live_variant_caller.py\<close>.
  A Python \<^verbatim>\<open>dict\<close> is an association list in insertion order (its keys are distinct):
  a lookup is \<open>map_of\<close>, \<^verbatim>\<open>d[k] = v\<close> is \<open>dict_set\<close>, which overwrites the entry of an
  existing key where it stands and appends a new key at the end.
  Python's \<^verbatim>\<open>float\<close> is modelled by \<open>real\<close>: the rounding of float arithmetic and the
  special values (infinities, NaN) are outside the model, except that the NaN which
  \<^verbatim>\<open>np.mean\<close> returns for an empty list is the value \<open>None\<close>.
  Counts, positions and list offsets are \<open>nat\<close>; configuration numbers and base
  qualities are Python integers, \<open>int\<close>.
\<close>

datatype error = KeyError | IndexError | TypeError | ValueError | ZeroDivisionError

fun dict_set :: "'k \<Rightarrow> 'v \<Rightarrow> ('k \<times> 'v) list \<Rightarrow> ('k \<times> 'v) list" where
  "dict_set k v [] = [(k, v)]"
| "dict_set k v ((k', v') # d) =
     (if k' = k then (k, v) # d else (k', v') # dict_set k v d)"

text \<open>
  A Site is the dictionary with the keys \<^verbatim>\<open>'reference'\<close>, \<^verbatim>\<open>'totalDepth'\<close> and
  \<^verbatim>\<open>'baseQualities'\<close> that \<^verbatim>\<open>process_pileup_column\<close> creates.
\<close>

record Site =
  reference :: char
  totalDepth :: nat
  baseQualities :: "(char \<times> int list) list"

text \<open>
  What the code reads of a pysam \<^verbatim>\<open>PileupRead\<close>: the two flags, the offset into the read
  (\<^verbatim>\<open>None\<close> for a deletion or a reference skip) and, of its alignment, the bases and the
  base qualities. A \<^verbatim>\<open>PileupColumn\<close> gives its coordinate, the name of its reference
  sequence and its reads.
\<close>

record pileup =
  is_del :: bool
  is_refskip :: bool
  query_position :: "nat option"
  query_sequence :: string
  query_qualities :: "int list"

record pileupColumn =
  reference_pos :: nat
  reference_name :: string
  pileups :: "pileup list"

text \<open>
  The caller object: the configuration of \<^verbatim>\<open>__init__\<close>, the reference file (the sequence
  of each reference name) and the Site memory.
\<close>

record LiveVariantCaller =
  minBaseQuality :: int
  minMappingQuality :: int
  minTotalDepth :: int
  minEvidenceDepth :: int
  minEvidenceRatio :: real
  maxVariants :: int
  fastaFile :: "(string \<times> string) list"
  memory :: "(nat \<times> Site) list"

definition reset_memory :: "LiveVariantCaller \<Rightarrow> LiveVariantCaller" where
  "reset_memory self = self\<lparr>memory := []\<rparr>"

section \<open>Ingestion\<close>

text \<open>
  \<^verbatim>\<open>process_pileup_at_position\<close>: a read that is a deletion or a reference skip is left
  out. Otherwise the base is read at the read's offset (a \<^verbatim>\<open>TypeError\<close> for the offset
  \<^verbatim>\<open>None\<close>, an \<^verbatim>\<open>IndexError\<close> beyond the read), the Site is looked up (a \<^verbatim>\<open>KeyError\<close>
  when the position has none), and then the \<^verbatim>\<open>if\<close> of the source: a base that is not yet
  a key gets the empty list, and only in the \<^verbatim>\<open>else\<close> branch is the quality appended.
\<close>

definition process_pileup_at_position ::
  "LiveVariantCaller \<Rightarrow> nat \<Rightarrow> pileup \<Rightarrow> error + LiveVariantCaller" where
  "process_pileup_at_position self position pileup =
     (if \<not> is_del pileup \<and> \<not> is_refskip pileup then
        (case query_position pileup of
           None \<Rightarrow> Inl TypeError
         | Some i \<Rightarrow>
             if length (query_sequence pileup) \<le> i then Inl IndexError
             else
               let base = query_sequence pileup ! i in
               (case map_of (memory self) position of
                  None \<Rightarrow> Inl KeyError
                | Some site \<Rightarrow>
                    (case map_of (baseQualities site) base of
                       None \<Rightarrow>
                         Inr (self\<lparr>memory := dict_set position
                           (site\<lparr>baseQualities := dict_set base [] (baseQualities site)\<rparr>)
                           (memory self)\<rparr>)
                     | Some quals \<Rightarrow>
                         if length (query_qualities pileup) \<le> i then Inl IndexError
                         else
                           Inr (self\<lparr>memory := dict_set position
                             (site\<lparr>baseQualities := dict_set base
                                (quals @ [query_qualities pileup ! i]) (baseQualities site)\<rparr>)
                             (memory self)\<rparr>))))
      else Inr self)"

text \<open>The loop \<^verbatim>\<open>for pileup in pileupColumn.pileups\<close>; it stops at the first exception.\<close>

fun process_pileups ::
  "LiveVariantCaller \<Rightarrow> nat \<Rightarrow> pileup list \<Rightarrow> error + LiveVariantCaller" where
  "process_pileups self position [] = Inr self"
| "process_pileups self position (pileup # rest) =
     (case process_pileup_at_position self position pileup of
        Inl e \<Rightarrow> Inl e
      | Inr self' \<Rightarrow> process_pileups self' position rest)"

text \<open>
  \<^verbatim>\<open>process_pileup_column\<close>. Its first part is \<open>observe_column\<close>: the column's number
  of reads opens a new Site, with the reference base fetched from the reference file
  (a \<^verbatim>\<open>KeyError\<close> for an unknown reference name, an \<^verbatim>\<open>IndexError\<close> beyond the
  sequence), or is added to the \<^verbatim>\<open>totalDepth\<close> of the Site that exists. Then every read
  of the column is processed.
\<close>

definition observe_column :: "LiveVariantCaller \<Rightarrow> pileupColumn \<Rightarrow> error + LiveVariantCaller" where
  "observe_column self pileupColumn =
     (let depth = length (pileups pileupColumn) in
      case map_of (memory self) (reference_pos pileupColumn) of
        None \<Rightarrow>
          (case map_of (fastaFile self) (reference_name pileupColumn) of
             None \<Rightarrow> Inl KeyError
           | Some refseq \<Rightarrow>
               if length refseq \<le> reference_pos pileupColumn then Inl IndexError
               else Inr (self\<lparr>memory := dict_set (reference_pos pileupColumn)
                        \<lparr>reference = refseq ! reference_pos pileupColumn,
                         totalDepth = depth, baseQualities = []\<rparr> (memory self)\<rparr>))
      | Some site \<Rightarrow>
          Inr (self\<lparr>memory := dict_set (reference_pos pileupColumn)
                 (site\<lparr>totalDepth := totalDepth site + depth\<rparr>) (memory self)\<rparr>))"

definition process_pileup_column ::
  "LiveVariantCaller \<Rightarrow> pileupColumn \<Rightarrow> error + LiveVariantCaller" where
  "process_pileup_column self pileupColumn =
     (case observe_column self pileupColumn of
        Inl e \<Rightarrow> Inl e
      | Inr self' \<Rightarrow> process_pileups self' (reference_pos pileupColumn) (pileups pileupColumn))"

text \<open>
  \<^verbatim>\<open>process_bam\<close>: the pileup columns that the alignment file yields (already filtered
  by mapping and base quality) are processed in their order.
\<close>

fun process_bam :: "LiveVariantCaller \<Rightarrow> pileupColumn list \<Rightarrow> error + LiveVariantCaller" where
  "process_bam self [] = Inr self"
| "process_bam self (pileupColumn # rest) =
     (case process_pileup_column self pileupColumn of
        Inl e \<Rightarrow> Inl e
      | Inr self' \<Rightarrow> process_bam self' rest)"

section \<open>Checkpoints\<close>

text \<open>
  \<^verbatim>\<open>create_checkpoint\<close> pickles \<^verbatim>\<open>self.memory\<close> into the file. The pickle library is
  taken to store and return an object exactly, so the content of the file is the
  pickled Site memory itself.
\<close>

type_synonym checkpoint = "(nat \<times> Site) list"

definition create_checkpoint :: "LiveVariantCaller \<Rightarrow> checkpoint" where
  "create_checkpoint self = memory self"

text \<open>
  \<^verbatim>\<open>load_checkpoint\<close> executes \<^verbatim>\<open>self.memory,  = pickle.load(file)\<close>. The comma makes
  the left-hand side a tuple of one target, so the loaded dictionary is unpacked:
  iterating a dictionary yields its keys, exactly one key is needed
  (a \<^verbatim>\<open>ValueError\<close> otherwise), and that key, a position, is what \<^verbatim>\<open>self.memory\<close> is
  bound to. \<open>memory_value\<close> is the type of the objects that the attribute can hold then.
\<close>

datatype memory_value = SiteMap "(nat \<times> Site) list" | Position nat

definition load_checkpoint :: "checkpoint \<Rightarrow> error + memory_value" where
  "load_checkpoint file =
     (case map fst file of
        [position] \<Rightarrow> Inr (Position position)
      | _ \<Rightarrow> Inl ValueError)"

section \<open>Scoring and emission\<close>

text \<open>
  The helpers \<^verbatim>\<open>from_phred_scale\<close>, \<^verbatim>\<open>genotype_likelihood\<close> and \<^verbatim>\<open>to_phred_scale\<close> are
  imported from \<^verbatim>\<open>variant_caller/utils.py\<close>; \<^verbatim>\<open>write_vcf\<close> is modelled for any three
  functions in their place. The type \<open>'s\<close> of a score is any linear order.
\<close>

record 's utils =
  from_phred_scale :: "int \<Rightarrow> real"
  genotype_likelihood :: "char \<Rightarrow> (char \<times> real list) list \<Rightarrow> real"
  to_phred_scale :: "real \<Rightarrow> 's"

record 's variant_info =
  TD :: nat
  ED :: nat
  GL :: real
  PL :: int
  SCORE :: 's

record 's variant =
  start :: nat
  stop :: nat
  alleles :: "char \<times> char"
  qual :: "real option"
  info :: "'s variant_info"

text \<open>
  \<^verbatim>\<open>math.log10\<close> raises a \<^verbatim>\<open>ValueError\<close> outside its domain; Python's \<^verbatim>\<open>round\<close> of a
  float rounds a tie to the even integer; \<^verbatim>\<open>np.mean\<close> of an empty list is NaN
  (\<open>None\<close>).
\<close>

definition math_log10 :: "real \<Rightarrow> error + real" where
  "math_log10 x = (if x \<le> 0 then Inl ValueError else Inr (log 10 x))"

definition py_round :: "real \<Rightarrow> int" where
  "py_round x =
     (let f = \<lfloor>x\<rfloor>; d = x - of_int f
      in if d < 1 / 2 then f else if 1 / 2 < d then f + 1 else if even f then f else f + 1)"

definition np_mean :: "real list \<Rightarrow> real option" where
  "np_mean xs = (if xs = [] then None else Some (sum_list xs / real (length xs)))"

text \<open>
  The dictionary comprehensions of \<^verbatim>\<open>write_vcf\<close>. A comprehension over the keys of a
  dictionary that reads the entry of each key is a map over the entries.
  \<^verbatim>\<open>genotypeLikelihoods[allele]\<close> is \<^verbatim>\<open>genotype_likelihood(allele, errorProbabilities)\<close>.
\<close>

definition errorProbabilities :: "'s utils \<Rightarrow> Site \<Rightarrow> (char \<times> real list) list" where
  "errorProbabilities u site =
     map (\<lambda>(allele, quals). (allele, map (from_phred_scale u) quals)) (baseQualities site)"

definition genotypeLikelihoods ::
  "'s utils \<Rightarrow> (char \<times> real list) list \<Rightarrow> (char \<times> real) list" where
  "genotypeLikelihoods u probs =
     map (\<lambda>(allele, _). (allele, genotype_likelihood u allele probs)) probs"

definition sumGenotypeLikelihoods :: "'s utils \<Rightarrow> (char \<times> real list) list \<Rightarrow> real" where
  "sumGenotypeLikelihoods u probs =
     (let s = foldl (+) 0 (map snd (genotypeLikelihoods u probs))
      in if s \<noteq> 0 then s else 1)"

text \<open>
  The list \<^verbatim>\<open>filterConstrains\<close> is built in full before \<^verbatim>\<open>all\<close> reads it, so the
  division is made for every allele and raises \<^verbatim>\<open>ZeroDivisionError\<close> at a Site of
  depth zero.
\<close>

definition filterConstrains ::
  "LiveVariantCaller \<Rightarrow> Site \<Rightarrow> char \<Rightarrow> nat \<Rightarrow> error + bool list" where
  "filterConstrains self site allele evidenceDepth =
     (if totalDepth site = 0 then Inl ZeroDivisionError
      else Inr [reference site \<noteq> allele,
                minEvidenceDepth self \<le> int evidenceDepth,
                minEvidenceRatio self \<le> real evidenceDepth / real (totalDepth site)])"

text \<open>The assignment of \<^verbatim>\<open>gl\<close> and \<^verbatim>\<open>pl\<close>.\<close>

definition gl_pl :: "real \<Rightarrow> error + real \<times> int" where
  "gl_pl genotypeLikelihood =
     (if genotypeLikelihood \<noteq> 0 then
        (case math_log10 genotypeLikelihood of
           Inl e \<Rightarrow> Inl e
         | Inr gl \<Rightarrow> Inr (gl, py_round (- 10 * gl)))
      else Inr (0, 0))"

text \<open>
  The loop \<^verbatim>\<open>for allele in errorProbabilities.keys()\<close> that collects \<^verbatim>\<open>variants\<close>;
  \<open>probs\<close> is the whole dictionary \<^verbatim>\<open>errorProbabilities\<close>, the last argument the
  entries still to visit.
\<close>

fun collect_variants ::
  "'s utils \<Rightarrow> LiveVariantCaller \<Rightarrow> nat \<Rightarrow> Site \<Rightarrow> (char \<times> real list) list \<Rightarrow>
   (char \<times> real list) list \<Rightarrow> error + 's variant list" where
  "collect_variants u self position site probs [] = Inr []"
| "collect_variants u self position site probs ((allele, ps) # rest) =
     (let evidenceDepth = length ps in
      case filterConstrains self site allele evidenceDepth of
        Inl e \<Rightarrow> Inl e
      | Inr constrains \<Rightarrow>
          if list_all id constrains then
            (let genotypeLikelihood = genotype_likelihood u allele probs in
             case gl_pl genotypeLikelihood of
               Inl e \<Rightarrow> Inl e
             | Inr (gl, pl) \<Rightarrow>
                 (let score = to_phred_scale u
                        (1 - genotypeLikelihood / sumGenotypeLikelihoods u probs);
                      variant = \<lparr>start = position, stop = position + 1,
                         alleles = (reference site, allele), qual = np_mean ps,
                         info = \<lparr>TD = totalDepth site, ED = evidenceDepth, GL = gl,
                                 PL = pl, SCORE = score\<rparr>\<rparr>
                  in case collect_variants u self position site probs rest of
                       Inl e \<Rightarrow> Inl e
                     | Inr variants \<Rightarrow> Inr (variant # variants)))
          else collect_variants u self position site probs rest)"

text \<open>
  The emission loop: the variants of one Site, sorted by \<^verbatim>\<open>SCORE\<close> (\<^verbatim>\<open>sorted\<close> is
  stable, as \<open>sort_key\<close> is), are written while \<^verbatim>\<open>maxVariants == 0 or index < maxVariants\<close>.
\<close>

definition emit :: "LiveVariantCaller \<Rightarrow> ('s::linorder) variant list \<Rightarrow> 's variant list" where
  "emit self variants =
     map snd (filter (\<lambda>(index, variant). maxVariants self = 0 \<or> int index < maxVariants self)
       (enumerate 0 (sort_key (\<lambda>variant. SCORE (info variant)) variants)))"

text \<open>
  \<^verbatim>\<open>write_vcf\<close>, after the header of the output file is set up: the loop over the
  positions of the memory, in the order of the dictionary. The result is the caller
  object after the pass, the records written to the file, and the exception that
  ended the pass, if any; the records of the Sites before it are written already.
\<close>

fun write_positions ::
  "('s::linorder) utils \<Rightarrow> LiveVariantCaller \<Rightarrow> nat list \<Rightarrow>
   LiveVariantCaller \<times> 's variant list \<times> error option" where
  "write_positions u self [] = (self, [], None)"
| "write_positions u self (position # rest) =
     (case map_of (memory self) position of
        None \<Rightarrow> (self, [], Some KeyError)
      | Some site \<Rightarrow>
          if minTotalDepth self \<le> int (totalDepth site) then
            (case collect_variants u self position site (errorProbabilities u site)
                    (errorProbabilities u site) of
               Inl e \<Rightarrow> (self, [], Some e)
             | Inr variants \<Rightarrow>
                 (case write_positions u self rest of
                    (self', written, err) \<Rightarrow> (self', emit self variants @ written, err)))
          else write_positions u self rest)"

definition write_vcf ::
  "('s::linorder) utils \<Rightarrow> LiveVariantCaller \<Rightarrow>
   LiveVariantCaller \<times> 's variant list \<times> error option" where
  "write_vcf u self = write_positions u self (map fst (memory self))"

section \<open>Phred scale\<close>

text \<open>
  Modelled from the spec: \<^verbatim>\<open>to_phred_scale\<close> is defined in \<^verbatim>\<open>variant_caller/utils.py\<close>,
  which is not among the sources. The spec gives \<open>toPhredScale p\<close>, for a probability
  \<open>p\<close> in \<open>(0, 1]\<close>, as the integer \<open>round (-10 * log10 p)\<close>, which is 0 at \<open>p = 1\<close>;
  the rounding is that of Python's \<^verbatim>\<open>round\<close>.
\<close>

definition toPhredScale :: "real \<Rightarrow> int" where
  "toPhredScale p = py_round (- 10 * log 10 p)"

text \<open>
  Modelled from the spec: \<^verbatim>\<open>from_phred_scale\<close> is defined in \<^verbatim>\<open>variant_caller/utils.py\<close>,
  which is not among the sources. The spec gives \<open>fromPhredScale q\<close> as \<open>10 ^ (-q / 10)\<close>.
\<close>

definition fromPhredScale :: "int \<Rightarrow> real" where
  "fromPhredScale q = 10 powr (- real_of_int q / 10)"

section \<open>Observations and example inputs\<close>

text \<open>The depth recorded at a position, and the read counts of the columns at a position.\<close>

definition depth_of :: "LiveVariantCaller \<Rightarrow> nat \<Rightarrow> nat option" where
  "depth_of self p = map_option totalDepth (map_of (memory self) p)"

definition column_depths :: "nat \<Rightarrow> pileupColumn list \<Rightarrow> nat list" where
  "column_depths p cols =
     map (\<lambda>c. length (pileups c)) (filter (\<lambda>c. reference_pos c = p) cols)"

text \<open>
  Input that the alignment and reference files can give: a read that is no deletion
  and no skip has its offset inside the read, and a column lies on a known reference
  sequence.
\<close>

definition pileup_ok :: "pileup \<Rightarrow> bool" where
  "pileup_ok r =
     (is_del r \<or> is_refskip r \<or>
      (case query_position r of
         None \<Rightarrow> False
       | Some i \<Rightarrow> i < length (query_sequence r) \<and> i < length (query_qualities r)))"

definition column_ok :: "(string \<times> string) list \<Rightarrow> pileupColumn \<Rightarrow> bool" where
  "column_ok fasta c =
     ((case map_of fasta (reference_name c) of
         None \<Rightarrow> False
       | Some refseq \<Rightarrow> reference_pos c < length refseq) \<and>
      list_all pileup_ok (pileups c))"

text \<open>
  The three conditions of \<^verbatim>\<open>filterConstrains\<close> on an entry of \<^verbatim>\<open>errorProbabilities\<close>,
  and the record that \<^verbatim>\<open>write_vcf\<close> appends to \<^verbatim>\<open>variants\<close> for an entry that meets
  them, given its \<^verbatim>\<open>gl\<close> and \<^verbatim>\<open>pl\<close>.
\<close>

definition passes :: "LiveVariantCaller \<Rightarrow> Site \<Rightarrow> char \<times> real list \<Rightarrow> bool" where
  "passes self site entry =
     (reference site \<noteq> fst entry \<and> minEvidenceDepth self \<le> int (length (snd entry)) \<and>
      minEvidenceRatio self \<le> real (length (snd entry)) / real (totalDepth site))"

definition candidate ::
  "'s utils \<Rightarrow> nat \<Rightarrow> Site \<Rightarrow> (char \<times> real list) list \<Rightarrow> char \<times> real list \<Rightarrow>
   real \<times> int \<Rightarrow> 's variant" where
  "candidate u position site probs entry glpl =
     \<lparr>start = position, stop = position + 1, alleles = (reference site, fst entry),
      qual = np_mean (snd entry),
      info = \<lparr>TD = totalDepth site, ED = length (snd entry), GL = fst glpl, PL = snd glpl,
        SCORE = to_phred_scale u
          (1 - genotype_likelihood u (fst entry) probs / sumGenotypeLikelihoods u probs)\<rparr>\<rparr>"

text \<open>
  Example inputs. \<open>caller0\<close> is a caller with an empty memory and the thresholds of the
  scenario at position 100; \<open>column100\<close> holds the five reads of that scenario.
\<close>

definition read :: "char \<Rightarrow> int \<Rightarrow> pileup" where
  "read b q = \<lparr>is_del = False, is_refskip = False, query_position = Some 0,
               query_sequence = [b], query_qualities = [q]\<rparr>"

definition deletion :: pileup where
  "deletion = \<lparr>is_del = True, is_refskip = False, query_position = None,
               query_sequence = ''G'', query_qualities = [30]\<rparr>"

definition caller0 :: LiveVariantCaller where
  "caller0 = \<lparr>minBaseQuality = 0, minMappingQuality = 0, minTotalDepth = 5,
     minEvidenceDepth = 2, minEvidenceRatio = 3 / 10, maxVariants = 0,
     fastaFile = [(''ref'', replicate 100 CHR ''C'' @ ''AT'')], memory = []\<rparr>"

definition column100 :: pileupColumn where
  "column100 = \<lparr>reference_pos = 100, reference_name = ''ref'',
     pileups = [read CHR ''G'' 30, read CHR ''G'' 30, read CHR ''G'' 20,
                read CHR ''A'' 30, read CHR ''A'' 30]\<rparr>"

definition column101 :: pileupColumn where
  "column101 = \<lparr>reference_pos = 101, reference_name = ''ref'',
     pileups = [read CHR ''T'' 30, deletion]\<rparr>"

definition site100 :: Site where
  "site100 = \<lparr>reference = CHR ''A'', totalDepth = 5,
     baseQualities = [(CHR ''G'', [30, 20]), (CHR ''A'', [30])]\<rparr>"

definition caller3 :: LiveVariantCaller where
  "caller3 = caller0\<lparr>memory :=
     [(100, site100),
      (101, \<lparr>reference = CHR ''T'', totalDepth = 2, baseQualities = [(CHR ''T'', [])]\<rparr>),
      (102, \<lparr>reference = CHR ''C'', totalDepth = 1, baseQualities = []\<rparr>)]\<rparr>"

definition caller_after :: LiveVariantCaller where
  "caller_after = caller0\<lparr>memory :=
     [(100, \<lparr>reference = CHR ''A'', totalDepth = 10,
         baseQualities = [(CHR ''G'', [30, 20, 30, 30, 20]), (CHR ''A'', [30, 30, 30])]\<rparr>),
      (101, \<lparr>reference = CHR ''T'', totalDepth = 2, baseQualities = [(CHR ''T'', [])]\<rparr>)]\<rparr>"

text \<open>
  Example helpers and a Site with two alternate alleles. \<open>utils_one\<close> gives the
  likelihood 1 to \<open>G\<close> and 0 to every other allele, \<open>utils_zero\<close> gives 0 to all; both
  score a candidate by the probability itself. The variants are the records that
  \<^verbatim>\<open>write_vcf\<close> builds for the Site.
\<close>

definition utils_one :: "real utils" where
  "utils_one = \<lparr>from_phred_scale = fromPhredScale,
     genotype_likelihood = (\<lambda>allele probs. if allele = CHR ''G'' then 1 else 0),
     to_phred_scale = (\<lambda>p. p)\<rparr>"

definition utils_zero :: "real utils" where
  "utils_zero = \<lparr>from_phred_scale = fromPhredScale,
     genotype_likelihood = (\<lambda>allele probs. 0),
     to_phred_scale = (\<lambda>p. p)\<rparr>"

definition site_two :: Site where
  "site_two = \<lparr>reference = CHR ''A'', totalDepth = 12,
     baseQualities = [(CHR ''T'', [30, 30, 30, 30]), (CHR ''G'', [30, 20, 30, 30]),
                      (CHR ''A'', [30])]\<rparr>"

definition caller_two :: LiveVariantCaller where
  "caller_two = caller0\<lparr>memory := [(100, site_two)]\<rparr>"

definition variant_G :: "real variant" where
  "variant_G = \<lparr>start = 100, stop = 101, alleles = (CHR ''A'', CHR ''G''),
     qual = Some (13 / 4000), info = \<lparr>TD = 12, ED = 4, GL = 0, PL = 0, SCORE = 0\<rparr>\<rparr>"

definition variant_T :: "real variant" where
  "variant_T = \<lparr>start = 100, stop = 101, alleles = (CHR ''A'', CHR ''T''),
     qual = Some (1 / 1000), info = \<lparr>TD = 12, ED = 4, GL = 0, PL = 0, SCORE = 1\<rparr>\<rparr>"

definition variant_G0 :: "real variant" where
  "variant_G0 = \<lparr>start = 100, stop = 101, alleles = (CHR ''A'', CHR ''G''),
     qual = Some (13 / 4000), info = \<lparr>TD = 12, ED = 4, GL = 0, PL = 0, SCORE = 1\<rparr>\<rparr>"

section \<open>Ingestion: what is recorded\<close>

lemma map_of_dict_set: "map_of (dict_set k v d) = (map_of d)(k \<mapsto> v)"
  by (induction d) (auto simp: fun_upd_twist)

lemmas ingest_defs = process_pileup_column_def observe_column_def
  process_pileup_at_position_def Let_def nth_append

lemmas write_defs = write_vcf_def errorProbabilities_def filterConstrains_def gl_pl_def
  math_log10_def py_round_def sumGenotypeLikelihoods_def genotypeLikelihoods_def
  np_mean_def emit_def Let_def fromPhredScale_def powr_minus

lemmas example_defs = caller_two_def caller0_def site_two_def utils_one_def utils_zero_def
  variant_G_def variant_T_def variant_G0_def

text \<open>
  Claim C1. Every read that is no deletion and no skip should add its quality to the
  list of its base, so that the list of an allele is as long as the number of reads
  that support it: three for \<open>G\<close> in the scenario at position 100. The code gives the
  first read of each base the empty list and drops its quality: after the column the
  list of \<open>G\<close> holds two qualities for three reads, the list of \<open>A\<close> one for two.
\<close>

theorem ingest_drops_first_quality:
  "process_pileup_column caller0 column100 = Inr (caller0\<lparr>memory := [(100, site100)]\<rparr>) \<and>
   map (\<lambda>(base, quals). (base, length quals)) (baseQualities site100) =
     [(CHR ''G'', 2), (CHR ''A'', 1)] \<and>
   map (\<lambda>base. (base, length (filter
          (\<lambda>r. \<not> is_del r \<and> \<not> is_refskip r \<and> query_sequence r = [base])
          (pileups column100)))) ''GA'' =
     [(CHR ''G'', 3), (CHR ''A'', 2)]"
  by (simp add: ingest_defs caller0_def column100_def read_def site100_def)

text \<open>
  Claim C2. No base should be a key of the observations without a recorded quality.
  After a column with a single read of \<open>G\<close> at a new position, \<open>G\<close> is a key and its
  list is empty.
\<close>

theorem ingest_leaves_empty_key:
  "process_pileup_column caller0
     \<lparr>reference_pos = 100, reference_name = ''ref'', pileups = [read CHR ''G'' 30]\<rparr> =
   Inr (caller0\<lparr>memory := [(100, \<lparr>reference = CHR ''A'', totalDepth = 1,
       baseQualities = [(CHR ''G'', [])]\<rparr>)]\<rparr>)"
  by (simp add: ingest_defs caller0_def read_def)

section \<open>Checkpoints do not round-trip\<close>

lemma load_checkpoint_never_restores:
  "load_checkpoint (create_checkpoint self) \<noteq> Inr (SiteMap (memory self))"
  by (simp add: load_checkpoint_def create_checkpoint_def split: list.splits)

text \<open>
  Claim C3. Saving a checkpoint and loading it should restore every Site. For the
  memory of three Sites of \<open>caller3\<close> the load raises \<^verbatim>\<open>ValueError\<close>: the dictionary
  read from the file is unpacked into one target.
\<close>

theorem checkpoint_of_three_sites_fails:
  "load_checkpoint (create_checkpoint caller3) = Inl ValueError"
  by (simp add: load_checkpoint_def create_checkpoint_def caller3_def)

section \<open>Reads at a position without a Site\<close>

text \<open>
  A read flagged as a deletion or a reference skip carries no base; it is left out
  before anything is looked up, at any position.
\<close>

lemma flagged_read_is_ignored:
  "is_del pileup \<or> is_refskip pileup \<Longrightarrow>
   process_pileup_at_position self position pileup = Inr self"
  by (auto simp: process_pileup_at_position_def)

text \<open>
  Claim C8. At a position for which no Site exists, recording the base of a read (a
  read that is no deletion and no reference skip, its base taken at its offset inside
  the read) fails: the lookup of the missing Site raises \<^verbatim>\<open>KeyError\<close>, the exception by
  which the code signals the invalid state. Nothing catches it, so it ends the loop
  over the reads of the column as well, and the reads after it are not processed; the
  observation is never dropped with a normal return.
\<close>

theorem unknown_position_fails:
  "map_of (memory self) position = None \<Longrightarrow>
   \<not> is_del pileup \<Longrightarrow> \<not> is_refskip pileup \<Longrightarrow>
   query_position pileup = Some i \<Longrightarrow> i < length (query_sequence pileup) \<Longrightarrow>
   process_pileup_at_position self position pileup = Inl KeyError \<and>
   process_pileups self position (pileup # rest) = Inl KeyError"
  by (simp add: process_pileup_at_position_def Let_def)

theorem unknown_position_fails_witness:
  "map_of (memory caller0) 100 = None \<and>
   \<not> is_del (read CHR ''G'' 30) \<and> \<not> is_refskip (read CHR ''G'' 30) \<and>
   query_position (read CHR ''G'' 30) = Some 0 \<and>
   0 < length (query_sequence (read CHR ''G'' 30)) \<and>
   process_pileup_at_position caller0 100 (read CHR ''G'' 30) = Inl KeyError \<and>
   process_pileups caller0 100 [read CHR ''G'' 30, read CHR ''A'' 30] = Inl KeyError"
proof -
  have site: "map_of (memory caller0) 100 = None" by (simp add: caller0_def)
  have flags: "\<not> is_del (read CHR ''G'' 30)" "\<not> is_refskip (read CHR ''G'' 30)"
    by (simp_all add: read_def)
  have offset: "query_position (read CHR ''G'' 30) = Some 0"
    "0 < length (query_sequence (read CHR ''G'' 30))"
    by (simp_all add: read_def)
  from unknown_position_fails [OF site flags offset, of "[read CHR ''A'' 30]"]
    site flags offset
  show ?thesis by simp
qed

section \<open>Accumulation of the total depth\<close>

lemma depth_of_pileup:
  "process_pileup_at_position self position pileup = Inr self' \<Longrightarrow> depth_of self' p = depth_of self p"
  by (auto simp: process_pileup_at_position_def depth_of_def map_of_dict_set Let_def
      split: if_splits option.splits)

lemma depth_of_pileups:
  "process_pileups self position ps = Inr self' \<Longrightarrow> depth_of self' p = depth_of self p"
proof (induction ps arbitrary: self)
  case Nil
  then show ?case by simp
next
  case (Cons a ps)
  then show ?case by (auto split: sum.splits dest: depth_of_pileup)
qed

lemma depth_of_observe:
  "observe_column self c = Inr self' \<Longrightarrow>
   depth_of self' p =
     (if reference_pos c = p
      then Some (case depth_of self p of None \<Rightarrow> length (pileups c) | Some d \<Rightarrow> d + length (pileups c))
      else depth_of self p)"
  by (auto simp: observe_column_def depth_of_def map_of_dict_set Let_def
      split: if_splits option.splits)

lemma depth_of_column:
  "process_pileup_column self c = Inr self' \<Longrightarrow>
   depth_of self' p =
     (if reference_pos c = p
      then Some (case depth_of self p of None \<Rightarrow> length (pileups c) | Some d \<Rightarrow> d + length (pileups c))
      else depth_of self p)"
  unfolding process_pileup_column_def
  by (auto split: sum.splits simp: depth_of_pileups dest!: depth_of_observe[where p=p])

lemma depth_of_bam:
  "process_bam self cols = Inr self' \<Longrightarrow>
   depth_of self' p =
     (case depth_of self p of
        Some d \<Rightarrow> Some (d + sum_list (column_depths p cols))
      | None \<Rightarrow> if column_depths p cols = [] then None else Some (sum_list (column_depths p cols)))"
proof (induction cols arbitrary: self)
  case Nil
  then show ?case by (simp add: column_depths_def split: option.splits)
next
  case (Cons c cols)
  from Cons.prems obtain self1 where
    c: "process_pileup_column self c = Inr self1" and r: "process_bam self1 cols = Inr self'"
    by (auto split: sum.splits)
  show ?case
    using Cons.IH[OF r] depth_of_column[OF c, of p]
    by (auto simp: column_depths_def split: option.splits if_splits)
qed

text \<open>Ingestion of well-formed input raises nothing.\<close>

lemma pileup_succeeds:
  "pileup_ok r \<Longrightarrow> map_of (memory self) position \<noteq> None \<Longrightarrow>
   \<exists>self'. process_pileup_at_position self position r = Inr self' \<and>
     fastaFile self' = fastaFile self \<and> map_of (memory self') position \<noteq> None"
  by (auto simp: process_pileup_at_position_def pileup_ok_def Let_def map_of_dict_set
      split: option.splits)

lemma pileups_succeed:
  "list_all pileup_ok rs \<Longrightarrow> map_of (memory self) position \<noteq> None \<Longrightarrow>
   \<exists>self'. process_pileups self position rs = Inr self' \<and> fastaFile self' = fastaFile self"
proof (induction rs arbitrary: self)
  case Nil
  then show ?case by simp
next
  case (Cons r rs)
  from Cons.prems obtain self1 where
    s: "process_pileup_at_position self position r = Inr self1"
       "fastaFile self1 = fastaFile self" "map_of (memory self1) position \<noteq> None"
    using pileup_succeeds[of r self position] by auto
  from Cons.prems have "list_all pileup_ok rs" by simp
  from Cons.IH[OF this s(3)] s show ?case by auto
qed

lemma observe_succeeds:
  assumes "column_ok (fastaFile self) c"
  shows "\<exists>self'. observe_column self c = Inr self' \<and> fastaFile self' = fastaFile self \<and>
     map_of (memory self') (reference_pos c) \<noteq> None"
proof (cases "map_of (memory self) (reference_pos c)")
  case None
  with assms show ?thesis
    by (auto simp: column_ok_def observe_column_def Let_def map_of_dict_set split: option.splits)
next
  case (Some site)
  then show ?thesis
    by (simp add: observe_column_def Let_def map_of_dict_set)
qed

lemma column_succeeds:
  assumes "column_ok (fastaFile self) c"
  shows "\<exists>self'. process_pileup_column self c = Inr self' \<and> fastaFile self' = fastaFile self"
proof -
  from observe_succeeds[OF assms] obtain self1 where
    o: "observe_column self c = Inr self1" "fastaFile self1 = fastaFile self"
       "map_of (memory self1) (reference_pos c) \<noteq> None"
    by blast
  from assms have "list_all pileup_ok (pileups c)" by (simp add: column_ok_def)
  from pileups_succeed[OF this o(3)] o show ?thesis
    by (auto simp: process_pileup_column_def)
qed

lemma bam_succeeds:
  "list_all (column_ok (fastaFile self)) cols \<Longrightarrow> \<exists>self'. process_bam self cols = Inr self'"
proof (induction cols arbitrary: self)
  case Nil
  then show ?case by simp
next
  case (Cons c cols)
  from Cons.prems column_succeeds[of self c] obtain self1 where
    s: "process_pileup_column self c = Inr self1" "fastaFile self1 = fastaFile self"
    by auto
  with Cons.prems have "list_all (column_ok (fastaFile self1)) cols" by simp
  from Cons.IH[OF this] s show ?case by auto
qed

text \<open>
  Ingesting one list of columns after another is ingesting their concatenation, so
  the law below covers several alignment files in turn.
\<close>

lemma process_bam_append:
  "process_bam self (cols @ cols') =
     (case process_bam self cols of Inl e \<Rightarrow> Inl e | Inr s \<Rightarrow> process_bam s cols')"
  by (induction cols arbitrary: self) (auto split: sum.splits)

text \<open>
  Claim C6. Ingesting a list of pileup columns, from one alignment file or from
  several in turn, succeeds on well-formed columns, and when it succeeds the
  \<^verbatim>\<open>totalDepth\<close> at every position is its value before (nothing, for a position
  without a Site) plus the sum of the read counts of the columns at that position,
  wherever they stand in the list; so the depth of a Site never decreases.
\<close>

theorem totalDepth_accumulates:
  "(list_all (column_ok (fastaFile self)) cols \<longrightarrow> (\<exists>s. process_bam self cols = Inr s)) \<and>
   (process_bam self cols = Inr self' \<longrightarrow>
      depth_of self' p =
        (case depth_of self p of
           Some d \<Rightarrow> Some (d + sum_list (column_depths p cols))
         | None \<Rightarrow> if column_depths p cols = [] then None
                   else Some (sum_list (column_depths p cols))) \<and>
      (\<forall>d. depth_of self p = Some d \<longrightarrow> (\<exists>d'. depth_of self' p = Some d' \<and> d \<le> d')))"
  using depth_of_bam [of self cols self' p] bam_succeeds [of self cols]
  by (auto split: option.splits)

theorem totalDepth_accumulates_witness:
  "list_all (column_ok (fastaFile caller0)) [column100, column101, column100] \<and>
   process_bam caller0 [column100, column101, column100] = Inr caller_after \<and>
   depth_of caller0 100 = None \<and>
   column_depths 100 [column100, column101, column100] = [5, 5] \<and>
   depth_of caller_after 100 = Some 10"
proof -
  have ok: "list_all (column_ok (fastaFile caller0)) [column100, column101, column100]"
    by (simp add: column_ok_def pileup_ok_def caller0_def column100_def column101_def
        read_def deletion_def)
  have run: "process_bam caller0 [column100, column101, column100] = Inr caller_after"
    by (simp add: ingest_defs caller0_def column100_def column101_def read_def deletion_def
        caller_after_def)
  have cols: "column_depths 100 [column100, column101, column100] = [5, 5]"
    by (simp add: column_depths_def column100_def column101_def)
  have before: "depth_of caller0 100 = None"
    by (simp add: depth_of_def caller0_def)
  from totalDepth_accumulates [of caller0 "[column100, column101, column100]" caller_after 100]
    ok run cols before
  show ?thesis by simp
qed

section \<open>Candidates and emission\<close>

lemma collect_variants_Cons:
  "collect_variants u self position site probs (entry # rest) =
     (if totalDepth site = 0 then Inl ZeroDivisionError
      else if passes self site entry then
        (case gl_pl (genotype_likelihood u (fst entry) probs) of
           Inl e \<Rightarrow> Inl e
         | Inr glpl \<Rightarrow>
             (case collect_variants u self position site probs rest of
                Inl e \<Rightarrow> Inl e
              | Inr variants \<Rightarrow> Inr (candidate u position site probs entry glpl # variants)))
      else collect_variants u self position site probs rest)"
  by (cases entry)
     (simp add: Let_def filterConstrains_def passes_def candidate_def split: sum.splits prod.splits)

lemma collect_variants_sound:
  "collect_variants u self position site probs l = Inr variants \<Longrightarrow> v \<in> set variants \<Longrightarrow>
   \<exists>entry glpl. entry \<in> set l \<and> passes self site entry \<and> totalDepth site \<noteq> 0 \<and>
     gl_pl (genotype_likelihood u (fst entry) probs) = Inr glpl \<and>
     v = candidate u position site probs entry glpl"
proof (induction l arbitrary: variants)
  case Nil
  then show ?case by simp
next
  case (Cons entry l)
  show ?case
  proof (cases "passes self site entry")
    case False
    with Cons.prems have "collect_variants u self position site probs l = Inr variants"
      by (simp add: collect_variants_Cons split: if_splits)
    from Cons.IH[OF this Cons.prems(2)] obtain entry' glpl' where
      "entry' \<in> set l \<and> passes self site entry' \<and> totalDepth site \<noteq> 0 \<and>
       gl_pl (genotype_likelihood u (fst entry') probs) = Inr glpl' \<and>
       v = candidate u position site probs entry' glpl'"
      by blast
    then show ?thesis
      by (intro exI[of _ entry'] exI[of _ glpl']) simp
  next
    case True
    with Cons.prems(1) obtain glpl vs where
      h: "totalDepth site \<noteq> 0" "gl_pl (genotype_likelihood u (fst entry) probs) = Inr glpl"
         "collect_variants u self position site probs l = Inr vs"
         "variants = candidate u position site probs entry glpl # vs"
      by (auto simp: collect_variants_Cons split: if_splits sum.splits)
    from Cons.prems(2) h(4) consider "v = candidate u position site probs entry glpl" | "v \<in> set vs"
      by auto
    then show ?thesis
    proof cases
      case 1
      with True h show ?thesis
        by (intro exI[of _ entry] exI[of _ glpl]) simp
    next
      case 2
      from Cons.IH[OF h(3) 2] obtain entry' glpl' where
        "entry' \<in> set l \<and> passes self site entry' \<and> totalDepth site \<noteq> 0 \<and>
         gl_pl (genotype_likelihood u (fst entry') probs) = Inr glpl' \<and>
         v = candidate u position site probs entry' glpl'"
        by blast
      then show ?thesis
        by (intro exI[of _ entry'] exI[of _ glpl']) simp
    qed
  qed
qed

lemma collect_variants_alleles:
  "collect_variants u self position site probs l = Inr variants \<Longrightarrow>
   map (\<lambda>v. snd (alleles v)) variants = map fst (filter (passes self site) l)"
proof (induction l arbitrary: variants)
  case Nil
  then show ?case by simp
next
  case (Cons entry l)
  then show ?case
    by (auto simp: collect_variants_Cons candidate_def split: if_splits sum.splits)
qed

lemma filter_enumerate_less:
  "map snd (filter (\<lambda>(index, x). index < k) (enumerate n xs)) = take (k - n) xs"
proof (induction xs arbitrary: n)
  case Nil
  then show ?case by simp
next
  case (Cons x xs)
  show ?case
  proof (cases "n < k")
    case True
    then obtain d where d: "k - n = Suc d" "k - Suc n = d" by (cases "k - n") auto
    with True Cons[of "Suc n"] show ?thesis by simp
  next
    case False
    then have "filter (\<lambda>(index, x). index < k) (enumerate (Suc n) xs) = []"
      by (auto simp: filter_empty_conv in_set_enumerate_eq)
    with False show ?thesis by simp
  qed
qed

lemma emit_eq:
  "emit self variants =
     (if maxVariants self = 0 then sort_key (\<lambda>v. SCORE (info v)) variants
      else take (nat (maxVariants self)) (sort_key (\<lambda>v. SCORE (info v)) variants))"
proof -
  have *: "(\<lambda>(index::nat, variant::'a variant). int index < maxVariants self) = (\<lambda>(index, variant). index < nat (maxVariants self))"
    by auto
  show ?thesis
  proof (cases "maxVariants self = 0")
    case True
    then show ?thesis by (simp add: emit_def case_prod_unfold)
  next
    case False
    then show ?thesis
      using filter_enumerate_less[of "nat (maxVariants self)" 0 "sort_key (\<lambda>v. SCORE (info v)) variants"]
      by (simp add: emit_def *)
  qed
qed

lemma set_emit: "set (emit self variants) \<subseteq> set variants"
  by (auto simp: emit_eq dest: in_set_takeD)

lemma write_positions_self: "fst (write_positions u self ps) = self"
  by (induction ps) (auto split: option.splits sum.splits prod.splits)

lemma sorted_emit: "sorted (map (\<lambda>v. SCORE (info v)) (emit self variants))"
proof -
  have "sorted (map (\<lambda>v. SCORE (info v)) (sort_key (\<lambda>v. SCORE (info v)) variants))"
    by simp
  then show ?thesis
    by (auto simp: emit_eq take_map[symmetric] intro: sorted_wrt_take)
qed

lemma take_lowest:
  assumes "sorted (map f xs)"
  shows "\<forall>x \<in> set (take n xs). \<forall>y \<in> set (drop n xs). f x \<le> f y"
proof -
  have "sorted (map f (take n xs @ drop n xs))" using assms by simp
  then show ?thesis unfolding map_append sorted_append by auto
qed

lemma mset_minus_take: "mset xs - mset (take n xs) = mset (drop n xs)"
proof -
  have "mset xs = mset (take n xs) + mset (drop n xs)"
    by (metis append_take_drop_id mset_append)
  then show ?thesis by simp
qed

lemma write_positions_sound:
  "write_positions u self ps = (self', written, err) \<Longrightarrow> v \<in> set written \<Longrightarrow>
   \<exists>site allele quals. map_of (memory self) (start v) = Some site \<and>
     (allele, quals) \<in> set (baseQualities site) \<and>
     alleles v = (reference site, allele) \<and> TD (info v) = totalDepth site \<and>
     ED (info v) = length quals \<and>
     minTotalDepth self \<le> int (totalDepth site) \<and> allele \<noteq> reference site \<and>
     minEvidenceDepth self \<le> int (length quals) \<and>
     minEvidenceRatio self \<le> real (length quals) / real (totalDepth site)"
proof (induction ps arbitrary: self' written err)
  case Nil
  then show ?case by simp
next
  case (Cons p ps)
  show ?case
  proof (cases "map_of (memory self) p")
    case None
    with Cons.prems show ?thesis by simp
  next
    case (Some site)
    show ?thesis
    proof (cases "minTotalDepth self \<le> int (totalDepth site)")
      case False
      with Some Cons show ?thesis by simp
    next
      case True
      show ?thesis
      proof (cases "collect_variants u self p site (errorProbabilities u site) (errorProbabilities u site)")
        case (Inl e)
        with Some True Cons.prems show ?thesis by simp
      next
        case (Inr variants)
        obtain s1 w1 e1 where r: "write_positions u self ps = (s1, w1, e1)"
          by (cases "write_positions u self ps") auto
        with Some True Inr Cons.prems have w: "written = emit self variants @ w1" by simp
        from Cons.prems(2) w consider "v \<in> set (emit self variants)" | "v \<in> set w1" by auto
        then show ?thesis
        proof cases
          case 1
          then have "v \<in> set variants" using set_emit by blast
          from collect_variants_sound[OF Inr this] obtain entry glpl where
            e: "entry \<in> set (errorProbabilities u site)" "passes self site entry"
               "v = candidate u p site (errorProbabilities u site) entry glpl"
            by blast
          obtain allele ps' where entry: "entry = (allele, ps')" by (cases entry)
          from e entry have
            h: "(allele, ps') \<in> set (errorProbabilities u site)" "passes self site (allele, ps')"
               "start v = p" "alleles v = (reference site, allele)"
               "TD (info v) = totalDepth site" "ED (info v) = length ps'"
            by (simp_all add: candidate_def)
          from h(1) obtain quals where q: "(allele, quals) \<in> set (baseQualities site)"
             "ps' = map (from_phred_scale u) quals"
            by (auto simp: errorProbabilities_def)
          show ?thesis using h q Some True by (auto simp: passes_def)
        next
          case 2
          from Cons.IH[OF r 2] show ?thesis .
        qed
      qed
    qed
  qed
qed

text \<open>
  Claim C4. Every record that the emission pass writes, also before an exception
  that ends the pass, comes from a Site of the memory at the record's position and an
  allele of its observations such that: the Site's \<^verbatim>\<open>totalDepth\<close> is at least
  \<^verbatim>\<open>minTotalDepth\<close>, the allele differs from the reference base, its evidence depth
  (the length of its quality list, the record's \<open>ED\<close>) is at least \<^verbatim>\<open>minEvidenceDepth\<close>,
  and evidence depth over total depth is at least \<^verbatim>\<open>minEvidenceRatio\<close>.
\<close>

theorem written_records_pass_filters:
  "write_vcf u self = (self', written, err) \<Longrightarrow> v \<in> set written \<Longrightarrow>
   \<exists>site allele quals. map_of (memory self) (start v) = Some site \<and>
     (allele, quals) \<in> set (baseQualities site) \<and>
     alleles v = (reference site, allele) \<and> TD (info v) = totalDepth site \<and>
     ED (info v) = length quals \<and>
     minTotalDepth self \<le> int (totalDepth site) \<and> allele \<noteq> reference site \<and>
     minEvidenceDepth self \<le> int (length quals) \<and>
     minEvidenceRatio self \<le> real (length quals) / real (totalDepth site)"
  unfolding write_vcf_def by (rule write_positions_sound)

theorem written_records_pass_filters_witness:
  "write_vcf utils_one caller_two = (caller_two, [variant_G, variant_T], None) \<and>
   variant_G \<in> set [variant_G, variant_T] \<and>
   (\<exists>site allele quals. map_of (memory caller_two) (start variant_G) = Some site \<and>
     (allele, quals) \<in> set (baseQualities site) \<and>
     alleles variant_G = (reference site, allele) \<and> TD (info variant_G) = totalDepth site \<and>
     ED (info variant_G) = length quals \<and>
     minTotalDepth caller_two \<le> int (totalDepth site) \<and> allele \<noteq> reference site \<and>
     minEvidenceDepth caller_two \<le> int (length quals) \<and>
     minEvidenceRatio caller_two \<le> real (length quals) / real (totalDepth site))"
proof -
  have run: "write_vcf utils_one caller_two = (caller_two, [variant_G, variant_T], None)"
    by (simp add: write_defs example_defs)
  have mem: "variant_G \<in> set [variant_G, variant_T]" by simp
  from written_records_pass_filters [OF run mem] run mem show ?thesis by blast
qed

text \<open>
  Claim C5. The records emitted for the candidates of a Site are sorted by ascending
  \<open>SCORE\<close> and are candidates; when \<^verbatim>\<open>maxVariants\<close> is positive and smaller than the
  number of candidates, exactly \<^verbatim>\<open>maxVariants\<close> are emitted and every candidate left
  out scores at least as high as every emitted one; when \<^verbatim>\<open>maxVariants\<close> is 0 (or not
  smaller than the number of candidates) all candidates are emitted. The candidates
  are the alleles that meet the three filter conditions, whatever their score.
\<close>

theorem emission_ranked:
  "sorted (map (\<lambda>v. SCORE (info v)) (emit self variants)) \<and>
   mset (emit self variants) \<subseteq># mset variants \<and>
   (0 < maxVariants self \<and> maxVariants self < int (length variants) \<longrightarrow>
      length (emit self variants) = nat (maxVariants self) \<and>
      (\<forall>x \<in> set (emit self variants). \<forall>y \<in># mset variants - mset (emit self variants).
         SCORE (info x) \<le> SCORE (info y))) \<and>
   (maxVariants self = 0 \<or> int (length variants) \<le> maxVariants self \<longrightarrow>
      mset (emit self variants) = mset variants) \<and>
   (collect_variants u self position site probs l = Inr variants \<longrightarrow>
      map (\<lambda>v. snd (alleles v)) variants = map fst (filter (passes self site) l))"
proof -
  let ?f = "\<lambda>v::'a variant. SCORE (info v)"
  let ?s = "sort_key ?f variants"
  have ms: "mset ?s = mset variants" by simp
  have sub: "mset (emit self variants) \<subseteq># mset variants"
  proof -
    have "mset (take (nat (maxVariants self)) ?s) \<subseteq># mset ?s"
      by (metis append_take_drop_id mset_append mset_subset_eq_add_left)
    then show ?thesis by (simp add: emit_eq)
  qed
  have trunc: "length (emit self variants) = nat (maxVariants self) \<and>
      (\<forall>x \<in> set (emit self variants). \<forall>y \<in># mset variants - mset (emit self variants).
         ?f x \<le> ?f y)"
    if h: "0 < maxVariants self \<and> maxVariants self < int (length variants)"
  proof -
    from h have e: "emit self variants = take (nat (maxVariants self)) ?s"
      by (simp add: emit_eq)
    have "mset variants - mset (emit self variants) = mset (drop (nat (maxVariants self)) ?s)"
      unfolding e using mset_minus_take[of ?s "nat (maxVariants self)"] by simp
    moreover have "sorted (map ?f ?s)" by simp
    ultimately show ?thesis
      using take_lowest[of ?f ?s "nat (maxVariants self)"] h e by auto
  qed
  have all: "mset (emit self variants) = mset variants"
    if "maxVariants self = 0 \<or> int (length variants) \<le> maxVariants self"
    using that by (auto simp: emit_eq)
  show ?thesis
    using sorted_emit[of self variants] sub trunc all collect_variants_alleles[of u self position site probs l variants]
    by blast
qed

theorem emission_ranked_witness:
  "collect_variants utils_one caller_two 100 site_two (errorProbabilities utils_one site_two)
     (errorProbabilities utils_one site_two) = Inr [variant_T, variant_G] \<and>
   map fst (filter (passes caller_two site_two) (errorProbabilities utils_one site_two)) = ''TG'' \<and>
   maxVariants caller_two = 0 \<and>
   emit caller_two [variant_T, variant_G] = [variant_G, variant_T] \<and>
   0 < maxVariants (caller_two\<lparr>maxVariants := 1\<rparr>) \<and>
   maxVariants (caller_two\<lparr>maxVariants := 1\<rparr>) < int (length [variant_T, variant_G]) \<and>
   emit (caller_two\<lparr>maxVariants := 1\<rparr>) [variant_T, variant_G] = [variant_G] \<and>
   mset [variant_T, variant_G] - mset (emit (caller_two\<lparr>maxVariants := 1\<rparr>) [variant_T, variant_G]) = {#variant_T#} \<and>
   SCORE (info variant_G) \<le> SCORE (info variant_T)"
proof -
  have c: "collect_variants utils_one caller_two 100 site_two (errorProbabilities utils_one site_two)
     (errorProbabilities utils_one site_two) = Inr [variant_T, variant_G]"
    by (simp add: write_defs example_defs)
  have e0: "emit caller_two [variant_T, variant_G] = [variant_G, variant_T]"
    by (simp add: write_defs example_defs)
  have e1: "emit (caller_two\<lparr>maxVariants := 1\<rparr>) [variant_T, variant_G] = [variant_G]"
    by (simp add: write_defs example_defs)
  have m: "maxVariants caller_two = 0" by (simp add: example_defs)
  from emission_ranked [of caller_two "[variant_T, variant_G]" utils_one 100 site_two
      "errorProbabilities utils_one site_two" "errorProbabilities utils_one site_two"]
    emission_ranked [of "caller_two\<lparr>maxVariants := 1\<rparr>" "[variant_T, variant_G]" utils_one 100 site_two
      "errorProbabilities utils_one site_two" "errorProbabilities utils_one site_two"]
    c e0 e1 m
  show ?thesis by (simp add: passes_def write_defs example_defs)
qed

section \<open>Degenerate likelihoods\<close>

lemma foldl_plus: "foldl (+) a xs = a + sum_list (xs :: real list)"
  by (induction xs arbitrary: a) simp_all

lemma gl_pl_zero: "gl_pl 0 = Inr (0, 0)"
  by (simp add: gl_pl_def)

lemma collect_variants_degenerate:
  "0 < totalDepth site \<Longrightarrow> \<forall>entry \<in> set l. genotype_likelihood u (fst entry) probs = 0 \<Longrightarrow>
   \<exists>variants. collect_variants u self position site probs l = Inr variants \<and>
     map (\<lambda>v. snd (alleles v)) variants = map fst (filter (passes self site) l) \<and>
     (\<forall>v \<in> set variants. GL (info v) = 0 \<and> PL (info v) = 0 \<and> SCORE (info v) = to_phred_scale u 1)"
proof (induction l)
  case Nil
  then show ?case by simp
next
  case (Cons entry l)
  then obtain variants where
    v: "collect_variants u self position site probs l = Inr variants"
       "map (\<lambda>v. snd (alleles v)) variants = map fst (filter (passes self site) l)"
       "\<forall>v \<in> set variants. GL (info v) = 0 \<and> PL (info v) = 0 \<and> SCORE (info v) = to_phred_scale u 1"
    by auto
  from Cons.prems have z: "genotype_likelihood u (fst entry) probs = 0" by simp
  show ?case
    using v z Cons.prems(1)
    by (simp add: collect_variants_Cons gl_pl_zero candidate_def)
qed

text \<open>
  Claim C7. When the genotype likelihoods of a Site sum to zero, the sum is replaced
  by 1. A candidate whose likelihood is zero has \<open>GL = 0\<close> and \<open>PL = 0\<close>, and its score
  is \<^verbatim>\<open>to_phred_scale(1.0)\<close>. At a Site of positive depth whose likelihoods are
  non-negative and sum to zero, collecting the candidates raises nothing and yields
  one candidate for every allele that meets the filter conditions.
\<close>

theorem degenerate_likelihoods:
  "(foldl (+) 0 (map snd (genotypeLikelihoods u probs)) = 0 \<longrightarrow>
      sumGenotypeLikelihoods u probs = 1) \<and>
   (collect_variants u self position site probs l = Inr variants \<and> v \<in> set variants \<and>
    genotype_likelihood u (snd (alleles v)) probs = 0 \<longrightarrow>
      GL (info v) = 0 \<and> PL (info v) = 0 \<and> SCORE (info v) = to_phred_scale u 1) \<and>
   (0 < totalDepth site \<and> (\<forall>entry \<in> set probs. 0 \<le> genotype_likelihood u (fst entry) probs) \<and>
    foldl (+) 0 (map snd (genotypeLikelihoods u probs)) = 0 \<longrightarrow>
      (\<exists>candidates. collect_variants u self position site probs probs = Inr candidates \<and>
         map (\<lambda>v. snd (alleles v)) candidates = map fst (filter (passes self site) probs) \<and>
         (\<forall>v \<in> set candidates.
            GL (info v) = 0 \<and> PL (info v) = 0 \<and> SCORE (info v) = to_phred_scale u 1)))"
proof -
  have one: "sumGenotypeLikelihoods u probs = 1"
    if "foldl (+) 0 (map snd (genotypeLikelihoods u probs)) = 0"
    using that by (simp add: sumGenotypeLikelihoods_def)
  have two: "GL (info v) = 0 \<and> PL (info v) = 0 \<and> SCORE (info v) = to_phred_scale u 1"
    if h: "collect_variants u self position site probs l = Inr variants \<and> v \<in> set variants \<and>
       genotype_likelihood u (snd (alleles v)) probs = 0"
  proof -
    from h collect_variants_sound[of u self position site probs l variants v]
    obtain entry glpl where
      e: "gl_pl (genotype_likelihood u (fst entry) probs) = Inr glpl"
         "v = candidate u position site probs entry glpl"
      by blast
    from e(2) have a: "snd (alleles v) = fst entry" by (simp add: candidate_def)
    with h e(1) have "glpl = (0, 0)" by (simp add: gl_pl_zero)
    with e(2) a h show ?thesis by (simp add: candidate_def)
  qed
  have three: "\<exists>candidates. collect_variants u self position site probs probs = Inr candidates \<and>
         map (\<lambda>v. snd (alleles v)) candidates = map fst (filter (passes self site) probs) \<and>
         (\<forall>v \<in> set candidates.
            GL (info v) = 0 \<and> PL (info v) = 0 \<and> SCORE (info v) = to_phred_scale u 1)"
    if h: "0 < totalDepth site \<and> (\<forall>entry \<in> set probs. 0 \<le> genotype_likelihood u (fst entry) probs) \<and>
       foldl (+) 0 (map snd (genotypeLikelihoods u probs)) = 0"
  proof -
    let ?ls = "map snd (genotypeLikelihoods u probs)"
    have ls: "?ls = map (\<lambda>entry. genotype_likelihood u (fst entry) probs) probs"
      by (simp add: genotypeLikelihoods_def case_prod_unfold comp_def)
    from h have "sum_list ?ls = 0" by (simp add: foldl_plus)
    moreover from h have "\<And>x. x \<in> set ?ls \<Longrightarrow> 0 \<le> x" unfolding ls by auto
    ultimately have "\<forall>x \<in> set ?ls. x = 0"
      using sum_list_nonneg_eq_0_iff[of ?ls] by blast
    then have "\<forall>entry \<in> set probs. genotype_likelihood u (fst entry) probs = 0"
      unfolding ls by simp
    with h collect_variants_degenerate[of site probs u probs self position] show ?thesis by blast
  qed
  from one two three show ?thesis by blast
qed

theorem degenerate_likelihoods_witness:
  "foldl (+) 0 (map snd (genotypeLikelihoods utils_zero (errorProbabilities utils_zero site_two))) = 0 \<and>
   sumGenotypeLikelihoods utils_zero (errorProbabilities utils_zero site_two) = 1 \<and>
   0 < totalDepth site_two \<and>
   collect_variants utils_zero caller_two 100 site_two (errorProbabilities utils_zero site_two)
     (errorProbabilities utils_zero site_two) = Inr [variant_T, variant_G0] \<and>
   variant_G0 \<in> set [variant_T, variant_G0] \<and>
   genotype_likelihood utils_zero (snd (alleles variant_G0)) (errorProbabilities utils_zero site_two) = 0 \<and>
   GL (info variant_G0) = 0 \<and> PL (info variant_G0) = 0 \<and>
   map fst (filter (passes caller_two site_two) (errorProbabilities utils_zero site_two)) = ''TG''"
proof -
  have s: "foldl (+) 0 (map snd (genotypeLikelihoods utils_zero (errorProbabilities utils_zero site_two))) = 0"
    by (simp add: write_defs example_defs)
  have c: "collect_variants utils_zero caller_two 100 site_two (errorProbabilities utils_zero site_two)
     (errorProbabilities utils_zero site_two) = Inr [variant_T, variant_G0]"
    by (simp add: write_defs example_defs)
  have d: "0 < totalDepth site_two" by (simp add: example_defs)
  have g: "genotype_likelihood utils_zero (snd (alleles variant_G0)) (errorProbabilities utils_zero site_two) = 0"
    by (simp add: example_defs)
  have n: "\<forall>entry \<in> set (errorProbabilities utils_zero site_two).
     0 \<le> genotype_likelihood utils_zero (fst entry) (errorProbabilities utils_zero site_two)"
    by (simp add: example_defs)
  from degenerate_likelihoods [of utils_zero "errorProbabilities utils_zero site_two" caller_two 100
      site_two "errorProbabilities utils_zero site_two" "[variant_T, variant_G0]" variant_G0]
    s c d g n
  show ?thesis by (simp add: passes_def write_defs example_defs)
qed


section \<open>The emission pass leaves the memory alone\<close>

text \<open>
  Claim C10. \<^verbatim>\<open>write_vcf\<close> returns the caller as it received it, with the same Site
  memory, whether the pass ends normally or with an exception; run again on the
  returned caller it writes the same records.
\<close>

theorem write_vcf_keeps_memory:
  "fst (write_vcf u self) = self \<and> memory (fst (write_vcf u self)) = memory self \<and>
   write_vcf u (fst (write_vcf u self)) = write_vcf u self"
  by (simp add: write_vcf_def write_positions_self)


section \<open>Phred round trip\<close>

lemma powr_root:
  fixes x :: real
  assumes "0 < x" "0 < n"
  shows "(x ^ n) powr (1 / real n) = x"
proof -
  have "x ^ n = x powr real n" using assms by (simp only: powr_realpow)
  then have "(x ^ n) powr (1 / real n) = x powr (real n * (1 / real n))"
    by (simp only: powr_powr)
  also have "real n * (1 / real n) = 1" using assms by simp
  finally show ?thesis using assms by simp
qed

lemma root20: "((9 / 8 :: real) ^ 20) powr (1 / 20) = 9 / 8"
  using powr_root[of "9 / 8" 20] by simp

lemma ten_powr_twentieth: "10 powr (1 / 20) \<le> (9 / 8 :: real)"
proof -
  have "(10::real) \<le> (9 / 8) ^ 20" by (simp add: power_divide)
  then have "(10::real) powr (1 / 20) \<le> ((9 / 8) ^ 20) powr (1 / 20)"
    by (intro powr_mono2) simp_all
  then show ?thesis by (simp only: root20)
qed


lemma py_round_near: "\<bar>real_of_int (py_round x) - x\<bar> \<le> 1 / 2"
proof -
  have f: "real_of_int \<lfloor>x\<rfloor> \<le> x" "x < real_of_int \<lfloor>x\<rfloor> + 1" by linarith+
  show ?thesis
    unfolding py_round_def Let_def using f by (simp add: abs_le_iff)
qed

lemma py_round_unique:
  assumes "\<bar>real_of_int n - x\<bar> < 1 / 2"
  shows "py_round x = n"
proof -
  have "\<bar>real_of_int (py_round x) - x\<bar> \<le> 1 / 2" by (rule py_round_near)
  with assms have "\<bar>real_of_int (py_round x) - real_of_int n\<bar> < 1" by linarith
  then have "\<bar>py_round x - n\<bar> < 1" by linarith
  then show ?thesis by simp
qed

lemma roundtrip_ratio:
  assumes "0 < p"
  shows "fromPhredScale (toPhredScale p) =
    p * 10 powr ((- 10 * log 10 p - real_of_int (toPhredScale p)) / 10)"
proof -
  define x where "x = - 10 * log 10 p"
  define q where "q = real_of_int (toPhredScale p)"
  have "p = 10 powr (log 10 p)" using assms by simp
  also have "log 10 p = - x / 10" by (simp add: x_def)
  finally have p: "p = 10 powr (- x / 10)" .
  have "10 powr (- x / 10) * 10 powr ((x - q) / 10) = 10 powr (- x / 10 + (x - q) / 10)"
    by (simp only: powr_add)
  also have "- x / 10 + (x - q) / 10 = - q / 10" by (simp add: field_simps)
  finally have "p * 10 powr ((x - q) / 10) = 10 powr (- q / 10)" using p by simp
  then show ?thesis by (simp add: fromPhredScale_def x_def q_def)
qed


lemma ten_powr_minus_twentieth: "(8 / 9 :: real) \<le> 10 powr (- (1 / 20))"
proof -
  have pos: "0 < (10::real) powr (1 / 20)" by simp
  have "(10::real) powr (- (1 / 20)) = 1 / 10 powr (1 / 20)"
    by (simp only: powr_minus divide_inverse mult_1)
  moreover have "(8 / 9 :: real) \<le> 1 / 10 powr (1 / 20)"
    using ten_powr_twentieth pos by (simp add: field_simps)
  ultimately show ?thesis by simp
qed

lemma roundtrip_bounds:
  assumes "0 < p"
  shows "p * (8 / 9) \<le> fromPhredScale (toPhredScale p)"
    and "fromPhredScale (toPhredScale p) \<le> p * (9 / 8)"
proof -
  define d where "d = (- 10 * log 10 p - real_of_int (toPhredScale p)) / 10"
  have "\<bar>real_of_int (toPhredScale p) - (- 10 * log 10 p)\<bar> \<le> 1 / 2"
    unfolding toPhredScale_def by (rule py_round_near)
  then have "real_of_int (toPhredScale p) - (- 10 * log 10 p) \<le> 1 / 2"
    and "- (1 / 2) \<le> real_of_int (toPhredScale p) - (- 10 * log 10 p)"
    by (simp_all only: abs_le_iff) linarith+
  then have d: "- (1 / 20) \<le> d" "d \<le> 1 / 20"
    by (simp_all add: d_def field_simps)
  have "(10::real) powr d \<le> 10 powr (1 / 20)" using d(2) by (intro powr_mono) simp_all
  with ten_powr_twentieth have up: "10 powr d \<le> 9 / 8" by linarith
  have "(10::real) powr (- (1 / 20)) \<le> 10 powr d" using d(1) by (intro powr_mono) simp_all
  with ten_powr_minus_twentieth have lo: "8 / 9 \<le> 10 powr d" by linarith
  have r: "fromPhredScale (toPhredScale p) = p * 10 powr d"
    unfolding d_def by (rule roundtrip_ratio[OF assms])
  show "p * (8 / 9) \<le> fromPhredScale (toPhredScale p)"
    unfolding r using lo assms by (intro mult_left_mono) simp_all
  show "fromPhredScale (toPhredScale p) \<le> p * (9 / 8)"
    unfolding r using up assms by (intro mult_left_mono) simp_all
qed

lemma toPhredScale_nonneg:
  assumes "0 < p" "p \<le> 1"
  shows "0 \<le> toPhredScale p"
proof -
  have "log 10 p \<le> 0" using assms by simp
  then have x: "0 \<le> - 10 * log 10 p" by simp
  have "\<bar>real_of_int (toPhredScale p) - (- 10 * log 10 p)\<bar> \<le> 1 / 2"
    unfolding toPhredScale_def by (rule py_round_near)
  with x have "- 1 < real_of_int (toPhredScale p)" by linarith
  then show ?thesis by linarith
qed

lemma toPhredScale_one: "toPhredScale 1 = 0"
  by (simp add: toPhredScale_def py_round_def)


lemma root4: "((2::real) ^ 4) powr (1 / 4) = 2"
  using powr_root[of 2 4] by simp

lemma root20_two: "((2::real) ^ 20) powr (1 / 20) = 2"
  using powr_root[of 2 20] by simp

lemma log_two_bounds: "(1 / 4 :: real) < log 10 2" "log 10 2 < (7 / 20 :: real)"
proof -
  have "(10::real) powr (1 / 4) < (2 ^ 4) powr (1 / 4)"
    by (intro powr_less_mono2) simp_all
  then have "(10::real) powr (1 / 4) < 2" by (simp only: root4)
  moreover have "(1 / 4 :: real) < log 10 2 \<longleftrightarrow> 10 powr (1 / 4) < (2::real)"
    by (rule less_log_iff) simp_all
  ultimately show "(1 / 4 :: real) < log 10 2" by blast
  have "((2::real) ^ 20) powr (1 / 20) < (10 ^ 7) powr (1 / 20)"
    by (intro powr_less_mono2) simp_all
  also have "((10::real) ^ 7) powr (1 / 20) = (10 powr 7) powr (1 / 20)"
    by simp
  also have "\<dots> = (10::real) powr (7 / 20)" by (simp only: powr_powr) simp
  finally have "(2::real) < 10 powr (7 / 20)" by (simp only: root20_two)
  moreover have "log 10 2 < (7 / 20 :: real) \<longleftrightarrow> (2::real) < 10 powr (7 / 20)"
    by (rule log_less_iff) simp_all
  ultimately show "log 10 2 < (7 / 20 :: real)" by blast
qed

lemma toPhredScale_half: "toPhredScale (1 / 2) = 3"
proof -
  have l: "- 10 * log 10 (1 / 2) = 10 * log 10 (2::real)"
    by (simp add: log_divide)
  have "\<bar>real_of_int 3 - 10 * log 10 2\<bar> < 1 / 2"
    using log_two_bounds by linarith
  then show ?thesis unfolding toPhredScale_def l
    by (rule py_round_unique)
qed

lemma roundtrip_half: "fromPhredScale (toPhredScale (1 / 2)) \<noteq> 1 / 2"
proof
  assume "fromPhredScale (toPhredScale (1 / 2)) = 1 / 2"
  then have "(10::real) powr (- (3 / 10)) = 1 / 2"
    by (simp add: toPhredScale_half fromPhredScale_def)
  then have "((10::real) powr (- (3 / 10))) powr 10 = (1 / 2) powr 10" by (simp only:)
  moreover have "((10::real) powr (- (3 / 10))) powr 10 = 10 powr (- (3 / 10) * 10)"
    by (simp only: powr_powr)
  moreover have "(10::real) powr (- (3 / 10) * 10) = 1 / 1000" by (simp add: powr_minus)
  moreover have "(1 / 2 :: real) powr 10 = 1 / 1024" by (simp add: power_divide)
  ultimately show False by simp
qed

text \<open>
  Claim C9. For a probability \<open>p\<close> in \<open>(0, 1]\<close> the phred score \<open>toPhredScale p\<close> is
  not negative, and converting it back gives a probability between \<open>8/9 p\<close> and
  \<open>9/8 p\<close>, so within \<open>p / 8\<close> of \<open>p\<close>. The score of 1 is 0. The round trip is not
  exact: the score of \<open>1/2\<close> is 3, which converts back to a value other than \<open>1/2\<close>.
\<close>

theorem phred_roundtrip:
  "(0 < p \<and> p \<le> 1 \<longrightarrow>
      0 \<le> toPhredScale p \<and>
      p * (8 / 9) \<le> fromPhredScale (toPhredScale p) \<and>
      fromPhredScale (toPhredScale p) \<le> p * (9 / 8) \<and>
      \<bar>fromPhredScale (toPhredScale p) - p\<bar> \<le> p / 8) \<and>
   toPhredScale 1 = 0 \<and>
   fromPhredScale (toPhredScale (1 / 2)) \<noteq> 1 / 2"
proof -
  have "0 \<le> toPhredScale p \<and>
      p * (8 / 9) \<le> fromPhredScale (toPhredScale p) \<and>
      fromPhredScale (toPhredScale p) \<le> p * (9 / 8) \<and>
      \<bar>fromPhredScale (toPhredScale p) - p\<bar> \<le> p / 8" if h: "0 < p \<and> p \<le> 1"
  proof -
    from h have p: "0 < p" by simp
    have "\<bar>fromPhredScale (toPhredScale p) - p\<bar> \<le> p / 8"
      using roundtrip_bounds[OF p] p by linarith
    with roundtrip_bounds[OF p] toPhredScale_nonneg[of p] h show ?thesis
      by blast
  qed
  with toPhredScale_one roundtrip_half show ?thesis by blast
qed

theorem phred_roundtrip_witness:
  "(0::real) < 1 \<and> (1::real) \<le> 1 \<and> toPhredScale 1 = 0 \<and> fromPhredScale (toPhredScale 1) = 1 \<and>
   \<bar>fromPhredScale (toPhredScale 1) - 1\<bar> \<le> (1::real) / 8"
  using phred_roundtrip [of 1] by (simp add: toPhredScale_def py_round_def fromPhredScale_def)


end
